theory Spec2Isabelle
  imports Complex_Main
begin

section \<open>Reaction-diffusion demo: the operator builder, the reaction terms, the steppers\<close>

text \<open>
  The notebook \<^verbatim>\<open>reaction-diffusion_demo.ipynb\<close> computes with numpy and scipy.sparse on
  double-precision floats. The embedding idealises a float as a \<^typ>\<open>real\<close>: rounding,
  overflow, \<^verbatim>\<open>inf\<close> and \<^verbatim>\<open>nan\<close> are not modelled. Everything else the Python does is
  explicit: an exception is a value of \<open>error + 'a\<close>, a one-dimensional numpy array is a
  list, a scipy sparse matrix is its shape together with its entries (the storage format,
  DIA, LIL or CSR, does not change an entry, so \<^verbatim>\<open>tolil\<close> and \<^verbatim>\<open>todia\<close> are the identity).
\<close>

subsection \<open>Exceptions\<close>

datatype error = ZeroDivisionError | ValueError | IndexError

definition bind_err :: "error + 'a \<Rightarrow> ('a \<Rightarrow> error + 'b) \<Rightarrow> error + 'b" where
  "bind_err r k = (case r of Inl e \<Rightarrow> Inl e | Inr x \<Rightarrow> k x)"

text \<open>Python's \<^verbatim>\<open>a / b\<close> on scalars raises \<^verbatim>\<open>ZeroDivisionError\<close> when \<open>b\<close> is zero.\<close>

definition py_div :: "real \<Rightarrow> real \<Rightarrow> error + real" where
  "py_div a b = (if b = 0 then Inl ZeroDivisionError else Inr (a / b))"

subsection \<open>numpy arrays\<close>

type_synonym vec = "real list"

text \<open>\<^verbatim>\<open>numpy.ones(m)\<close>: a negative length raises \<^verbatim>\<open>ValueError\<close>.\<close>

definition ones :: "int \<Rightarrow> error + vec" where
  "ones m = (if m < 0 then Inl ValueError else Inr (replicate (nat m) 1))"



subsection \<open>scipy.sparse matrices\<close>

record spmatrix =
  nrows :: nat
  ncols :: nat
  ent :: "nat \<Rightarrow> nat \<Rightarrow> real"

text \<open>
  \<^verbatim>\<open>sparse.spdiags(data, diags, m, n)\<close> builds a \<^verbatim>\<open>dia_matrix\<close>: row \<open>k\<close> of \<open>data\<close> is
  laid on the diagonal of offset \<open>diags ! k\<close>, the entry in column \<open>j\<close> of that diagonal
  being \<open>data ! k ! j\<close>. The constructor raises \<^verbatim>\<open>ValueError\<close> when the number of
  diagonals differs from the number of offsets and when the offsets contain a duplicate
  (``offset array contains duplicate values'').
\<close>

definition spdiags :: "vec list \<Rightarrow> int list \<Rightarrow> nat \<Rightarrow> nat \<Rightarrow> error + spmatrix" where
  "spdiags data diags m n =
     (if length data \<noteq> length diags \<or> \<not> distinct diags then Inl ValueError
      else Inr \<lparr>nrows = m, ncols = n,
                ent = (\<lambda>i j. if i < m \<and> j < n
                              then (\<Sum>(row, k) \<leftarrow> zip data diags.
                                      if int j - int i = k \<and> j < length row then row ! j else 0)
                              else 0)\<rparr>)"

text \<open>\<^verbatim>\<open>sparse.eye(m)\<close>: the identity.\<close>

definition eye :: "nat \<Rightarrow> spmatrix" where
  "eye m = \<lparr>nrows = m, ncols = m, ent = (\<lambda>i j. if i < m \<and> j < m \<and> i = j then 1 else 0)\<rparr>"

text \<open>\<^verbatim>\<open>sparse.kron(A, B)\<close>: the Kronecker product, block \<open>(i, j)\<close> being \<open>A[i, j] * B\<close>.\<close>

definition kron :: "spmatrix \<Rightarrow> spmatrix \<Rightarrow> spmatrix" where
  "kron A B =
     \<lparr>nrows = nrows A * nrows B, ncols = ncols A * ncols B,
      ent = (\<lambda>i j. if i < nrows A * nrows B \<and> j < ncols A * ncols B
                    then ent A (i div nrows B) (j div ncols B) * ent B (i mod nrows B) (j mod ncols B)
                    else 0)\<rparr>"

text \<open>\<^verbatim>\<open>A + B\<close> on sparse matrices: shapes that differ raise \<^verbatim>\<open>ValueError\<close>.\<close>

definition sp_add :: "spmatrix \<Rightarrow> spmatrix \<Rightarrow> error + spmatrix" where
  "sp_add A B =
     (if nrows A \<noteq> nrows B \<or> ncols A \<noteq> ncols B then Inl ValueError
      else Inr \<lparr>nrows = nrows A, ncols = ncols A, ent = (\<lambda>i j. ent A i j + ent B i j)\<rparr>)"



definition sp_div :: "spmatrix \<Rightarrow> real \<Rightarrow> spmatrix" where
  "sp_div A c = A\<lparr>ent := (\<lambda>i j. ent A i j / c)\<rparr>"

text \<open>
  \<^verbatim>\<open>A[r, c] = v\<close> on a LIL matrix overwrites the entry; an index outside the shape raises
  \<^verbatim>\<open>IndexError\<close>. (The indices the source computes are never negative.)
\<close>

definition setitem :: "spmatrix \<Rightarrow> nat \<Rightarrow> nat \<Rightarrow> real \<Rightarrow> error + spmatrix" where
  "setitem A r c v =
     (if r < nrows A \<and> c < ncols A
      then Inr (A\<lparr>ent := (\<lambda>i j. if i = r \<and> j = c then v else ent A i j)\<rparr>)
      else Inl IndexError)"


subsection \<open>The reaction terms\<close>

text \<open>
  \<^verbatim>\<open>f_reaction\<close> and \<^verbatim>\<open>g_reaction\<close> act elementwise on the arrays \<open>U\<close> and \<open>V\<close>; arrays
  of different lengths raise \<^verbatim>\<open>ValueError\<close>, as in \<open>vec_add\<close>. In \<^verbatim>\<open>g_reaction\<close> the
  subexpression \<^verbatim>\<open>alpha * tau_1 / beta\<close> is a division of Python scalars, evaluated before
  any array enters the product. The parameter \<open>sigma\<close> is unused, as in the source.
\<close>

definition f_reaction :: "vec \<Rightarrow> vec \<Rightarrow> real \<Rightarrow> real \<Rightarrow> real \<Rightarrow> real \<Rightarrow> real \<Rightarrow> real \<Rightarrow> error + vec" where
  "f_reaction U V sigma tau_1 tau_2 alpha beta gamma =
     (if length U \<noteq> length V then Inl ValueError
      else Inr (map2 (\<lambda>u v. alpha * u * (1 - tau_1 * v\<^sup>2) + v * (1 - tau_2 * u)) U V))"

definition g_reaction :: "vec \<Rightarrow> vec \<Rightarrow> real \<Rightarrow> real \<Rightarrow> real \<Rightarrow> real \<Rightarrow> real \<Rightarrow> real \<Rightarrow> error + vec" where
  "g_reaction U V sigma tau_1 tau_2 alpha beta gamma =
     bind_err (py_div (alpha * tau_1) beta) (\<lambda>q.
       if length U \<noteq> length V then Inl ValueError
       else Inr (map2 (\<lambda>u v. beta * v * (1 + q * u * v) + u * (gamma + tau_2 * v)) U V))"

subsection \<open>The operator builder\<close>

text \<open>
  The loop \<^verbatim>\<open>for i in range(m)\<close> of \<^verbatim>\<open>laplacian_discretization\<close>, over the list of its
  indices. It runs only when \<open>m \<ge> 1\<close>, so \<open>(i + 1) * m - 1\<close> does not go below zero.
\<close>

fun left_right_bcs :: "nat \<Rightarrow> nat list \<Rightarrow> spmatrix \<Rightarrow> error + spmatrix" where
  "left_right_bcs m [] P = Inr P"
| "left_right_bcs m (i # rest) P =
     bind_err (setitem P (i * m) ((i + 1) * m - 1) 1) (\<lambda>P1.
     bind_err (setitem P1 ((i + 1) * m - 1) (i * m) 1) (\<lambda>P2.
     left_right_bcs m rest P2))"

definition laplacian_discretization :: "int \<Rightarrow> error + spmatrix" where
  "laplacian_discretization m =
     bind_err (py_div 2 (of_int (m + 1))) (\<lambda>delta_x.
     bind_err (ones m) (\<lambda>e.
     bind_err (spdiags [e, map ((*) (- 4)) e, e] [- 1, 0, 1] (nat m) (nat m)) (\<lambda>T.
     bind_err (spdiags [e, e] [- 1, 1] (nat m) (nat m)) (\<lambda>S.
     bind_err (sp_add (kron (eye (nat m)) T) (kron S (eye (nat m)))) (\<lambda>A.
     bind_err (ones (m\<^sup>2)) (\<lambda>e2.
     bind_err (spdiags [e2, e2] [m - m\<^sup>2, m\<^sup>2 - m] (nat (m\<^sup>2)) (nat (m\<^sup>2))) (\<lambda>A_periodic.
     bind_err (left_right_bcs (nat m) [0..<nat m] A_periodic) (\<lambda>A_periodic.
     bind_err (sp_add A A_periodic) (\<lambda>A.
     Inr (sp_div A (delta_x\<^sup>2)))))))))))"

subsection \<open>The steppers\<close>








subsection \<open>The periodic grid of the specification\<close>

text \<open>
  Cell \<open>(r, c)\<close> of the \<open>m \<times> m\<close> grid has the flat index \<open>i = r * m + c\<close>. Its four periodic
  neighbours are \<open>(r \<plusminus> 1 mod m, c)\<close> and \<open>(r, c \<plusminus> 1 mod m)\<close>; on natural numbers the
  predecessor modulo \<open>m\<close> is written \<open>(r + m - 1) mod m\<close>.
\<close>

definition up_nbr :: "nat \<Rightarrow> nat \<Rightarrow> nat" where
  "up_nbr m i = ((i div m + m - 1) mod m) * m + i mod m"

definition down_nbr :: "nat \<Rightarrow> nat \<Rightarrow> nat" where
  "down_nbr m i = ((i div m + 1) mod m) * m + i mod m"

definition left_nbr :: "nat \<Rightarrow> nat \<Rightarrow> nat" where
  "left_nbr m i = (i div m) * m + (i mod m + m - 1) mod m"

definition right_nbr :: "nat \<Rightarrow> nat \<Rightarrow> nat" where
  "right_nbr m i = (i div m) * m + (i mod m + 1) mod m"

text \<open>
  The stencil, before scaling: \<open>- 4\<close> on the diagonal and one unit for each of the four
  directions that leads from \<open>i\<close> to \<open>j\<close>.
\<close>

definition stencil :: "nat \<Rightarrow> nat \<Rightarrow> nat \<Rightarrow> real" where
  "stencil m i j =
     (if j = i then - 4 else 0)
   + (if j = up_nbr m i then 1 else 0) + (if j = down_nbr m i then 1 else 0)
   + (if j = left_nbr m i then 1 else 0) + (if j = right_nbr m i then 1 else 0)"

text \<open>The entry the specification states: each neighbour coupled with weight one.\<close>

definition five_point_entry :: "nat \<Rightarrow> nat \<Rightarrow> nat \<Rightarrow> real" where
  "five_point_entry m i j =
     (if i = j then - 4 / (2 / (real m + 1))\<^sup>2
      else if j = up_nbr m i \<or> j = down_nbr m i \<or> j = left_nbr m i \<or> j = right_nbr m i
      then 1 / (2 / (real m + 1))\<^sup>2
      else 0)"

text \<open>The row sum and the number of non-zero entries of row \<open>i\<close>.\<close>

definition row_sum :: "spmatrix \<Rightarrow> nat \<Rightarrow> real" where
  "row_sum A i = (\<Sum>j \<leftarrow> [0..<ncols A]. ent A i j)"

definition row_nnz :: "spmatrix \<Rightarrow> nat \<Rightarrow> nat" where
  "row_nnz A i = length (filter (\<lambda>j. ent A i j \<noteq> 0) [0..<ncols A])"

text \<open>
  The entries \<^verbatim>\<open>laplacian_discretization\<close> assembles, before the division by \<open>delta_x\<^sup>2\<close>:
  \<open>interior\<close> is \<^verbatim>\<open>kron(I, T) + kron(S, I)\<close>, \<open>wrap\<close> is \<^verbatim>\<open>A_periodic\<close> after its loop.
\<close>

definition interior :: "nat \<Rightarrow> nat \<Rightarrow> nat \<Rightarrow> real" where
  "interior n i j =
     (if i div n = j div n
      then (if int (j mod n) - int (i mod n) = - 1 then 1 else 0)
         + (if j mod n = i mod n then - 4 else 0)
         + (if int (j mod n) - int (i mod n) = 1 then 1 else 0)
      else 0)
   + (if i mod n = j mod n
      then (if int (j div n) - int (i div n) = - 1 then 1 else 0)
         + (if int (j div n) - int (i div n) = 1 then 1 else 0)
      else 0)"

definition wrap :: "nat \<Rightarrow> nat \<Rightarrow> nat \<Rightarrow> real" where
  "wrap n i j =
     (if \<exists>k\<in>set [0..<n]. (i = k * n \<and> j = (k + 1) * n - 1) \<or> (i = (k + 1) * n - 1 \<and> j = k * n)
      then 1
      else (if int j - int i = int n - (int n)\<^sup>2 then 1 else 0)
         + (if int j - int i = (int n)\<^sup>2 - int n then 1 else 0))"

text \<open>
  The property the proofs below establish of the matrix that \<^verbatim>\<open>laplacian_discretization(m)\<close>
  returns: its shape, and each entry as the stencil divided by \<open>delta_x\<^sup>2\<close>, where
  \<open>delta_x = 2 / (m + 1)\<close>.
\<close>

definition assembled :: "nat \<Rightarrow> spmatrix \<Rightarrow> bool" where
  "assembled m A \<longleftrightarrow>
     nrows A = m * m \<and> ncols A = m * m \<and>
     (\<forall>i j. i < m * m \<longrightarrow> j < m * m \<longrightarrow> ent A i j = stencil m i j / (2 / (real m + 1))\<^sup>2)"

section \<open>The assembled operator\<close>

lemma bind_err_Inr [simp]: "bind_err (Inr x) k = k x"
  by (simp add: bind_err_def)

lemma bind_err_Inl [simp]: "bind_err (Inl e) k = Inl e"
  by (simp add: bind_err_def)

lemma left_right_bcs_result:
  assumes "\<forall>i\<in>set idx. i < m" and "nrows P = m * m" and "ncols P = m * m"
  shows "\<exists>P'. left_right_bcs m idx P = Inr P' \<and> nrows P' = m * m \<and> ncols P' = m * m \<and>
           (\<forall>r c. ent P' r c =
              (if \<exists>i\<in>set idx. (r = i * m \<and> c = (i + 1) * m - 1) \<or> (r = (i + 1) * m - 1 \<and> c = i * m)
               then 1 else ent P r c))"
  using assms
proof (induction idx arbitrary: P)
  case Nil
  then show ?case by simp
next
  case (Cons i rest)
  from Cons.prems have im: "i < m" by simp
  then have lo: "i * m < m * m" by simp
  from im have le: "(i + 1) * m \<le> m * m" by (intro mult_le_mono1) simp
  from im have "0 < (i + 1) * m" by simp
  with le have hi: "(i + 1) * m - 1 < m * m" by arith
  define P1 where "P1 = P\<lparr>ent := (\<lambda>a b. if a = i * m \<and> b = (i + 1) * m - 1 then 1 else ent P a b)\<rparr>"
  define P2 where "P2 = P1\<lparr>ent := (\<lambda>a b. if a = (i + 1) * m - 1 \<and> b = i * m then 1 else ent P1 a b)\<rparr>"
  have s1: "setitem P (i * m) ((i + 1) * m - 1) 1 = Inr P1"
    using lo hi Cons.prems by (simp add: setitem_def P1_def)
  have shape1: "nrows P1 = m * m" "ncols P1 = m * m"
    using Cons.prems by (simp_all add: P1_def)
  have s2: "setitem P1 ((i + 1) * m - 1) (i * m) 1 = Inr P2"
    using lo hi shape1 by (simp add: setitem_def P2_def)
  have shape: "nrows P2 = m * m" "ncols P2 = m * m"
    using Cons.prems by (simp_all add: P1_def P2_def)
  from Cons.prems have rest: "\<forall>i\<in>set rest. i < m" by simp
  from Cons.IH [OF rest shape] obtain P' where
    P': "left_right_bcs m rest P2 = Inr P'" "nrows P' = m * m" "ncols P' = m * m"
      "\<forall>r c. ent P' r c =
              (if \<exists>i\<in>set rest. (r = i * m \<and> c = (i + 1) * m - 1) \<or> (r = (i + 1) * m - 1 \<and> c = i * m)
               then 1 else ent P2 r c)"
    by blast
  have "left_right_bcs m (i # rest) P = Inr P'"
    using s1 s2 P'(1) by (simp add: bind_err_def)
  moreover have "\<forall>r c. ent P' r c =
              (if \<exists>k\<in>set (i # rest). (r = k * m \<and> c = (k + 1) * m - 1) \<or> (r = (k + 1) * m - 1 \<and> c = k * m)
               then 1 else ent P r c)"
    using P'(4) by (auto simp: P1_def P2_def)
  ultimately show ?case using P'(2,3) by blast
qed

lemma laplacian_raw:
  assumes n: "2 \<le> n"
  shows "\<exists>A. laplacian_discretization (int n) = Inr A \<and> nrows A = n * n \<and> ncols A = n * n \<and>
           (\<forall>i j. i < n * n \<longrightarrow> j < n * n \<longrightarrow>
              ent A i j = (interior n i j + wrap n i j) / (2 / (real n + 1))\<^sup>2)"
proof -
  define e where "e = replicate n (1::real)"
  define e2 where "e2 = replicate (n * n) (1::real)"
  have sq: "nat ((int n)\<^sup>2) = n * n"
    by (simp add: power2_eq_square nat_mult_distrib)
  have d1: "py_div 2 (of_int (int n + 1)) = Inr (2 / (real n + 1))"
    by (simp add: py_div_def add.commute)
  have o1: "ones (int n) = Inr e"
    by (simp add: ones_def e_def)
  have o2: "ones ((int n)\<^sup>2) = Inr e2"
    by (simp add: ones_def e2_def sq)
  obtain T where T: "spdiags [e, map ((*) (- 4)) e, e] [- 1, 0, 1] n n = Inr T"
    and T_shape: "nrows T = n" "ncols T = n"
    and T_ent: "\<And>a b. a < n \<Longrightarrow> b < n \<Longrightarrow> ent T a b =
            (if int b - int a = - 1 then 1 else 0) + (if b = a then - 4 else 0)
          + (if int b - int a = 1 then 1 else 0)"
    by (simp add: spdiags_def e_def)
  obtain S where S: "spdiags [e, e] [- 1, 1] n n = Inr S"
    and S_shape: "nrows S = n" "ncols S = n"
    and S_ent: "\<And>a b. a < n \<Longrightarrow> b < n \<Longrightarrow> ent S a b =
            (if int b - int a = - 1 then 1 else 0) + (if int b - int a = 1 then 1 else 0)"
    by (simp add: spdiags_def e_def)
  define A0 where "A0 = \<lparr>nrows = n * n, ncols = n * n,
      ent = (\<lambda>i j. ent (kron (eye n) T) i j + ent (kron S (eye n)) i j)\<rparr>"
  have A0: "sp_add (kron (eye n) T) (kron S (eye n)) = Inr A0"
    by (simp add: sp_add_def kron_def eye_def T_shape S_shape A0_def)
  have A0_ent: "ent A0 i j = interior n i j" if "i < n * n" "j < n * n" for i j
  proof -
    from that have dv: "i div n < n" "j div n < n"
      by (simp_all add: less_mult_imp_div_less)
    from n that have md: "i mod n < n" "j mod n < n"
      by simp_all
    show ?thesis
      using that dv md
      by (simp add: A0_def kron_def eye_def T_shape S_shape T_ent S_ent interior_def)
  qed
  from n have "n * 2 \<le> n * n" by (intro mult_le_mono2)
  with n have gt: "n < n * n" by simp
  then have igt: "int n < (int n)\<^sup>2"
    by (metis of_nat_less_iff of_nat_mult power2_eq_square)
  obtain P0 where P0: "spdiags [e2, e2] [int n - (int n)\<^sup>2, (int n)\<^sup>2 - int n] (n * n) (n * n) = Inr P0"
    and P0_shape: "nrows P0 = n * n" "ncols P0 = n * n"
    and P0_ent: "\<And>a b. a < n * n \<Longrightarrow> b < n * n \<Longrightarrow> ent P0 a b =
            (if int b - int a = int n - (int n)\<^sup>2 then 1 else 0)
          + (if int b - int a = (int n)\<^sup>2 - int n then 1 else 0)"
    using igt by (simp add: spdiags_def e2_def)
  have "\<forall>i\<in>set [0..<n]. i < n" by simp
  from left_right_bcs_result [OF this P0_shape] obtain P' where
    P': "left_right_bcs n [0..<n] P0 = Inr P'" "nrows P' = n * n" "ncols P' = n * n"
      "\<forall>r c. ent P' r c =
         (if \<exists>i\<in>set [0..<n]. (r = i * n \<and> c = (i + 1) * n - 1) \<or> (r = (i + 1) * n - 1 \<and> c = i * n)
          then 1 else ent P0 r c)"
    by blast
  have P'_ent: "ent P' i j = wrap n i j" if "i < n * n" "j < n * n" for i j
    using that P'(4) P0_ent by (simp add: wrap_def)
  define A1 where "A1 = \<lparr>nrows = n * n, ncols = n * n, ent = (\<lambda>i j. ent A0 i j + ent P' i j)\<rparr>"
  have A1: "sp_add A0 P' = Inr A1"
    by (simp add: sp_add_def A0_def P'(2,3) A1_def)
  have "laplacian_discretization (int n) = Inr (sp_div A1 ((2 / (real n + 1))\<^sup>2))"
    using d1 o1 o2 T S A0 P0 P'(1) A1
    by (simp add: laplacian_discretization_def bind_err_def sq)
  moreover have "nrows (sp_div A1 ((2 / (real n + 1))\<^sup>2)) = n * n"
    "ncols (sp_div A1 ((2 / (real n + 1))\<^sup>2)) = n * n"
    by (simp_all add: sp_div_def A1_def)
  moreover have "ent (sp_div A1 ((2 / (real n + 1))\<^sup>2)) i j
      = (interior n i j + wrap n i j) / (2 / (real n + 1))\<^sup>2" if "i < n * n" "j < n * n" for i j
    using that by (simp add: sp_div_def A1_def A0_ent P'_ent)
  ultimately show ?thesis by blast
qed

lemma flat_eq_iff:
  fixes n :: nat
  assumes "c < n" "c' < n"
  shows "r * n + c = r' * n + c' \<longleftrightarrow> r = r' \<and> c = c'"
proof
  assume eq: "r * n + c = r' * n + c'"
  from assms have "(r * n + c) div n = r" "(r' * n + c') div n = r'" by simp_all
  with eq have "r = r'" by simp
  with eq show "r = r' \<and> c = c'" by simp
qed simp

lemma mod_succ: "c < n \<Longrightarrow> (c + 1) mod n = (if c + 1 = n then 0 else c + 1)" for c n :: nat
  by (simp add: mod_if)

lemma mod_pred: "c < n \<Longrightarrow> (c + n - 1) mod n = (if c = 0 then n - 1 else c - 1)" for c n :: nat
  by (auto simp: mod_if le_mod_geq)

lemma wrap_coord:
  assumes n: "2 \<le> n" and "r < n" "c < n" "r' < n" "c' < n"
  shows "wrap n (r * n + c) (r' * n + c') =
      (if r = r' \<and> ((c = 0 \<and> c' = n - 1) \<or> (c = n - 1 \<and> c' = 0)) then 1 else 0)
    + (if c = c' \<and> ((r = 0 \<and> r' = n - 1) \<or> (r = n - 1 \<and> r' = 0)) then 1 else 0)"
proof -
  have last: "(k + 1) * n - 1 = k * n + (n - 1)" for k
    using n by (simp add: algebra_simps)
  have first: "k * n = k * n + 0" for k
    by simp
  have n1: "n - 1 < n" "0 < n" using n by simp_all
  have loop: "(\<exists>k\<in>set [0..<n]. (r * n + c = k * n \<and> r' * n + c' = (k + 1) * n - 1)
                 \<or> (r * n + c = (k + 1) * n - 1 \<and> r' * n + c' = k * n))
      \<longleftrightarrow> r = r' \<and> ((c = 0 \<and> c' = n - 1) \<or> (c = n - 1 \<and> c' = 0))"
  proof -
    have a: "(r * n + c = k * n \<and> r' * n + c' = (k + 1) * n - 1) \<longleftrightarrow>
          (r = k \<and> c = 0 \<and> r' = k \<and> c' = n - 1)" for k
      unfolding last using flat_eq_iff [OF assms(3) n1(2), of r k] flat_eq_iff [OF assms(5) n1(1), of r' k]
      by simp
    have b: "(r * n + c = (k + 1) * n - 1 \<and> r' * n + c' = k * n) \<longleftrightarrow>
          (r = k \<and> c = n - 1 \<and> r' = k \<and> c' = 0)" for k
      unfolding last using flat_eq_iff [OF assms(3) n1(1), of r k] flat_eq_iff [OF assms(5) n1(2), of r' k]
      by simp
    show ?thesis
      unfolding a b using assms(2) by auto
  qed
  have sq: "(int n)\<^sup>2 = int (n * n)" by (simp add: power2_eq_square)
  have "int (r' * n + c') - int (r * n + c) = int n - (int n)\<^sup>2
      \<longleftrightarrow> (r' * n + c') + n * n = (r * n + c) + n"
    unfolding sq by linarith
  also have "\<dots> \<longleftrightarrow> (r' + n) * n + c' = (r + 1) * n + c"
    by (simp add: algebra_simps)
  finally have "int (r' * n + c') - int (r * n + c) = int n - (int n)\<^sup>2
      \<longleftrightarrow> (r' + n) * n + c' = (r + 1) * n + c" .
  then have down: "int (r' * n + c') - int (r * n + c) = int n - (int n)\<^sup>2
      \<longleftrightarrow> c = c' \<and> r = n - 1 \<and> r' = 0"
    using flat_eq_iff [OF assms(5,3), of "r' + n" "r + 1"] assms by auto
  have "int (r' * n + c') - int (r * n + c) = (int n)\<^sup>2 - int n
      \<longleftrightarrow> (r' * n + c') + n = (r * n + c) + n * n"
    unfolding sq by linarith
  also have "\<dots> \<longleftrightarrow> (r' + 1) * n + c' = (r + n) * n + c"
    by (simp add: algebra_simps)
  finally have "int (r' * n + c') - int (r * n + c) = (int n)\<^sup>2 - int n
      \<longleftrightarrow> (r' + 1) * n + c' = (r + n) * n + c" .
  then have up: "int (r' * n + c') - int (r * n + c) = (int n)\<^sup>2 - int n
      \<longleftrightarrow> c = c' \<and> r = 0 \<and> r' = n - 1"
    using flat_eq_iff [OF assms(5,3), of "r' + 1" "r + n"] assms by auto
  define L where "L \<longleftrightarrow> r = r' \<and> ((c = 0 \<and> c' = n - 1) \<or> (c = n - 1 \<and> c' = 0))"
  define D where "D \<longleftrightarrow> c = c' \<and> r = n - 1 \<and> r' = 0"
  define U where "U \<longleftrightarrow> c = c' \<and> r = 0 \<and> r' = n - 1"
  have excl: "\<not> (L \<and> D)" "\<not> (L \<and> U)" "\<not> (D \<and> U)"
    using n unfolding L_def D_def U_def by linarith+
  have C: "c = c' \<and> ((r = 0 \<and> r' = n - 1) \<or> (r = n - 1 \<and> r' = 0)) \<longleftrightarrow> D \<or> U"
    unfolding D_def U_def by blast
  show ?thesis
    unfolding wrap_def loop down up C
    unfolding L_def [symmetric] D_def [symmetric] U_def [symmetric]
    using excl by (cases L; cases D; cases U; simp)
qed

lemma interior_coord:
  assumes n: "2 \<le> n" and "r < n" "c < n" "r' < n" "c' < n"
  shows "interior n (r * n + c) (r' * n + c') =
      (if r = r' then (if c = c' + 1 then 1 else 0) + (if c' = c then - 4 else 0) + (if c' = c + 1 then 1 else 0) else 0)
    + (if c = c' then (if r = r' + 1 then 1 else 0) + (if r' = r + 1 then 1 else 0) else 0)"
  using assms by (auto simp: interior_def)

lemma stencil_coord:
  assumes n: "2 \<le> n" and "r < n" "c < n" "r' < n" "c' < n"
  shows "stencil n (r * n + c) (r' * n + c') =
      (if r = r' \<and> c = c' then - 4 else 0)
    + (if c' = c \<and> r' = (if r = 0 then n - 1 else r - 1) then 1 else 0)
    + (if c' = c \<and> r' = (if r + 1 = n then 0 else r + 1) then 1 else 0)
    + (if r' = r \<and> c' = (if c = 0 then n - 1 else c - 1) then 1 else 0)
    + (if r' = r \<and> c' = (if c + 1 = n then 0 else c + 1) then 1 else 0)"
proof -
  have dm: "(r * n + c) div n = r" "(r * n + c) mod n = c"
    using assms by simp_all
  define ru where "ru = (if r = 0 then n - 1 else r - 1)"
  define rd where "rd = (if r + 1 = n then 0 else r + 1)"
  define cl where "cl = (if c = 0 then n - 1 else c - 1)"
  define cr where "cr = (if c + 1 = n then 0 else c + 1)"
  have lt: "cl < n" "cr < n"
    using assms(3) unfolding cl_def cr_def by arith+
  have nb: "up_nbr n (r * n + c) = ru * n + c" "down_nbr n (r * n + c) = rd * n + c"
    "left_nbr n (r * n + c) = r * n + cl" "right_nbr n (r * n + c) = r * n + cr"
    unfolding up_nbr_def down_nbr_def left_nbr_def right_nbr_def dm ru_def rd_def cl_def cr_def
    using mod_succ [OF assms(2)] mod_succ [OF assms(3)] mod_pred [OF assms(2)] mod_pred [OF assms(3)]
    by simp_all
  have eqs: "r' * n + c' = r * n + c \<longleftrightarrow> r = r' \<and> c = c'"
    "r' * n + c' = ru * n + c \<longleftrightarrow> c' = c \<and> r' = ru"
    "r' * n + c' = rd * n + c \<longleftrightarrow> c' = c \<and> r' = rd"
    "r' * n + c' = r * n + cl \<longleftrightarrow> r' = r \<and> c' = cl"
    "r' * n + c' = r * n + cr \<longleftrightarrow> r' = r \<and> c' = cr"
    by (simp_all only: flat_eq_iff [OF assms(5,3)] flat_eq_iff [OF assms(5) lt(1)]
        flat_eq_iff [OF assms(5) lt(2)] conj_commute eq_commute [of r r'] eq_commute [of c c'])
  have "stencil n (r * n + c) (r' * n + c') =
      (if r = r' \<and> c = c' then - 4 else 0)
    + (if c' = c \<and> r' = ru then 1 else 0) + (if c' = c \<and> r' = rd then 1 else 0)
    + (if r' = r \<and> c' = cl then 1 else 0) + (if r' = r \<and> c' = cr then 1 else 0)"
    unfolding stencil_def nb eqs by (rule refl)
  then show ?thesis
    unfolding ru_def rd_def cl_def cr_def .
qed

lemma ring_1d:
  fixes a b n :: nat
  assumes n: "2 \<le> n" and "a < n" "b < n" and ne: "a \<noteq> b"
  shows "(if a = b + 1 then 1 else 0) + (if b = a + 1 then 1 else 0)
       + (if (a = 0 \<and> b = n - 1) \<or> (a = n - 1 \<and> b = 0) then 1 else (0::real))
       = (if b = (if a = 0 then n - 1 else a - 1) then 1 else 0)
       + (if b = (if a + 1 = n then 0 else a + 1) then 1 else 0)"
proof -
  have p: "b = (if a = 0 then n - 1 else a - 1) \<longleftrightarrow> (a = b + 1 \<or> (a = 0 \<and> b = n - 1))"
    using assms by (cases "a = 0") auto
  have s: "b = (if a + 1 = n then 0 else a + 1) \<longleftrightarrow> (b = a + 1 \<or> (a = n - 1 \<and> b = 0))"
    using assms by (cases "a + 1 = n") auto
  define P1 where "P1 \<longleftrightarrow> a = b + 1"
  define P2 where "P2 \<longleftrightarrow> b = a + 1"
  define P3 where "P3 \<longleftrightarrow> a = 0 \<and> b = n - 1"
  define P4 where "P4 \<longleftrightarrow> a = n - 1 \<and> b = 0"
  have x1: "\<not> (P1 \<and> P3)" "\<not> (P2 \<and> P4)" "\<not> (P1 \<and> P2)" "\<not> (P3 \<and> P4)"
    using n unfolding P1_def P2_def P3_def P4_def by linarith+
  have "(if P1 then 1 else 0) + (if P2 then 1 else 0) + (if P3 \<or> P4 then 1 else (0::real))
       = (if P1 \<or> P3 then 1 else 0) + (if P2 \<or> P4 then 1 else 0)"
    using x1 by (cases P1; cases P2; cases P3; cases P4; simp)
  then show ?thesis
    unfolding p s P1_def P2_def P3_def P4_def .
qed

lemma interior_wrap_stencil:
  assumes n: "2 \<le> n" and "r < n" "c < n" "r' < n" "c' < n"
  shows "interior n (r * n + c) (r' * n + c') + wrap n (r * n + c) (r' * n + c')
       = stencil n (r * n + c) (r' * n + c')"
proof -
  consider (same) "r = r'" "c = c'" | (row) "r = r'" "c \<noteq> c'" | (col) "r \<noteq> r'" "c = c'"
    | (far) "r \<noteq> r'" "c \<noteq> c'"
    by blast
  then show ?thesis
  proof cases
    case same
    have "r \<noteq> (if r = 0 then n - 1 else r - 1)" "r \<noteq> (if r + 1 = n then 0 else r + 1)"
      "c \<noteq> (if c = 0 then n - 1 else c - 1)" "c \<noteq> (if c + 1 = n then 0 else c + 1)"
      using n assms(2,3) by arith+
    moreover have "\<not> (c = 0 \<and> c = n - 1)" "\<not> (r = 0 \<and> r = n - 1)"
      using n by linarith+
    ultimately show ?thesis
      unfolding interior_coord [OF assms] wrap_coord [OF assms] stencil_coord [OF assms]
      using same [symmetric] n by (simp; arith)
  next
    case row
    show ?thesis
      unfolding interior_coord [OF assms] wrap_coord [OF assms] stencil_coord [OF assms]
      using row ring_1d [OF n assms(3,5) row(2)] by simp
  next
    case col
    show ?thesis
      unfolding interior_coord [OF assms] wrap_coord [OF assms] stencil_coord [OF assms]
      using col ring_1d [OF n assms(2,4) col(1)] by simp
  next
    case far
    show ?thesis
      unfolding interior_coord [OF assms] wrap_coord [OF assms] stencil_coord [OF assms]
      using far by simp
  qed
qed

lemma interior_wrap_stencil_flat:
  assumes n: "2 \<le> n" and "i < n * n" "j < n * n"
  shows "interior n i j + wrap n i j = stencil n i j"
proof -
  have dv: "i div n < n" "j div n < n"
    using assms by (simp_all add: less_mult_imp_div_less)
  have md: "i mod n < n" "j mod n < n"
    using n by simp_all
  from interior_wrap_stencil [OF n dv(1) md(1) dv(2) md(2)] show ?thesis
    by simp
qed

lemma laplacian_assembled:
  assumes n: "2 \<le> n"
  shows "\<exists>A. laplacian_discretization (int n) = Inr A \<and> assembled n A"
  using laplacian_raw [OF n] interior_wrap_stencil_flat [OF n] unfolding assembled_def by auto

lemma flat_lt:
  fixes n :: nat
  assumes "r < n" "c < n"
  shows "r * n + c < n * n"
proof -
  from assms have "r * n + c < r * n + n" by simp
  also have "\<dots> = (r + 1) * n" by simp
  also from assms have "\<dots> \<le> n * n" by (intro mult_le_mono1) simp
  finally show ?thesis .
qed

lemma nbr_lt:
  assumes n: "0 < n" and i: "i < n * n"
  shows "up_nbr n i < n * n" "down_nbr n i < n * n" "left_nbr n i < n * n" "right_nbr n i < n * n"
proof -
  have dv: "i div n < n" using i by (simp add: less_mult_imp_div_less)
  have md: "i mod n < n" using n by simp
  have m: "(i div n + n - 1) mod n < n" "(i div n + 1) mod n < n"
    "(i mod n + n - 1) mod n < n" "(i mod n + 1) mod n < n"
    using n by simp_all
  show "up_nbr n i < n * n" "down_nbr n i < n * n" "left_nbr n i < n * n" "right_nbr n i < n * n"
    unfolding up_nbr_def down_nbr_def left_nbr_def right_nbr_def
    using flat_lt [OF m(1) md] flat_lt [OF m(2) md] flat_lt [OF dv m(3)] flat_lt [OF dv m(4)]
    by simp_all
qed








section \<open>Claims about the operator\<close>



lemma pred_succ_swap:
  fixes a b n :: nat
  assumes "a < n" "b < n"
  shows "b = (if a = 0 then n - 1 else a - 1) \<longleftrightarrow> a = (if b + 1 = n then 0 else b + 1)"
  using assms by arith

lemma stencil_sym_coord:
  assumes n: "2 \<le> n" and "r < n" "c < n" "r' < n" "c' < n"
  shows "stencil n (r * n + c) (r' * n + c') = stencil n (r' * n + c') (r * n + c)"
proof -
  have a: "stencil n (r * n + c) (r' * n + c') =
      (if r = r' \<and> c = c' then - 4 else 0)
    + (if c' = c \<and> r' = (if r = 0 then n - 1 else r - 1) then 1 else 0)
    + (if c' = c \<and> r' = (if r + 1 = n then 0 else r + 1) then 1 else 0)
    + (if r' = r \<and> c' = (if c = 0 then n - 1 else c - 1) then 1 else 0)
    + (if r' = r \<and> c' = (if c + 1 = n then 0 else c + 1) then 1 else 0)"
    by (rule stencil_coord [OF assms])
  have b: "stencil n (r' * n + c') (r * n + c) =
      (if r' = r \<and> c' = c then - 4 else 0)
    + (if c = c' \<and> r = (if r' = 0 then n - 1 else r' - 1) then 1 else 0)
    + (if c = c' \<and> r = (if r' + 1 = n then 0 else r' + 1) then 1 else 0)
    + (if r = r' \<and> c = (if c' = 0 then n - 1 else c' - 1) then 1 else 0)
    + (if r = r' \<and> c = (if c' + 1 = n then 0 else c' + 1) then 1 else 0)"
    by (rule stencil_coord [OF n assms(4,5,2,3)])
  have e: "(r = r' \<and> c = c') = (r' = r \<and> c' = c)"
    "(c' = c \<and> r' = (if r = 0 then n - 1 else r - 1)) = (c = c' \<and> r = (if r' + 1 = n then 0 else r' + 1))"
    "(c' = c \<and> r' = (if r + 1 = n then 0 else r + 1)) = (c = c' \<and> r = (if r' = 0 then n - 1 else r' - 1))"
    "(r' = r \<and> c' = (if c = 0 then n - 1 else c - 1)) = (r = r' \<and> c = (if c' + 1 = n then 0 else c' + 1))"
    "(r' = r \<and> c' = (if c + 1 = n then 0 else c + 1)) = (r = r' \<and> c = (if c' = 0 then n - 1 else c' - 1))"
    using pred_succ_swap [OF assms(2,4)] pred_succ_swap [OF assms(4,2)]
      pred_succ_swap [OF assms(3,5)] pred_succ_swap [OF assms(5,3)]
    by blast+
  show ?thesis
    unfolding a b e by (simp only: ac_simps)
qed

lemma stencil_sym:
  assumes n: "2 \<le> n" and "i < n * n" "j < n * n"
  shows "stencil n i j = stencil n j i"
proof -
  have dv: "i div n < n" "j div n < n"
    using assms by (simp_all add: less_mult_imp_div_less)
  have md: "i mod n < n" "j mod n < n"
    using n by simp_all
  from stencil_sym_coord [OF n dv(1) md(1) dv(2) md(2)] show ?thesis
    by simp
qed

lemma assembled_sym:
  assumes n: "2 \<le> n" and A: "assembled n A" and "i < n * n" "j < n * n"
  shows "ent A i j = ent A j i"
  using assms stencil_sym [OF n assms(3,4)] by (simp add: assembled_def)

text \<open>
  C4. For every grid size \<open>m \<ge> 2\<close>, the matrix \<^verbatim>\<open>laplacian_discretization(m)\<close> returns is
  symmetric: \<open>A[i, j] = A[j, i]\<close> for all indices \<open>i, j\<close> below \<open>m\<^sup>2\<close>.
\<close>

theorem laplacian_symmetric:
  assumes "2 \<le> n"
  shows "\<exists>A. laplacian_discretization (int n) = Inr A \<and> nrows A = n * n \<and> ncols A = n * n \<and>
           (\<forall>i j. i < n * n \<longrightarrow> j < n * n \<longrightarrow> ent A i j = ent A j i)"
proof -
  from laplacian_assembled [OF assms] obtain A where
    A: "laplacian_discretization (int n) = Inr A" "assembled n A"
    by blast
  from A(2) have "nrows A = n * n" "ncols A = n * n"
    by (simp_all add: assembled_def)
  with A(1) assembled_sym [OF assms A(2)] show ?thesis
    by blast
qed

theorem laplacian_symmetric_witness:
  "(2::nat) \<le> 2 \<and> (1::nat) < 2 * 2 \<and> (3::nat) < 2 * 2
   \<and> ent (projr (laplacian_discretization (int 2))) 1 3
     = ent (projr (laplacian_discretization (int 2))) 3 1"
proof -
  have h: "(2::nat) \<le> 2" by simp
  from laplacian_symmetric [OF h] obtain A where
    "laplacian_discretization (int 2) = Inr A"
    "\<forall>i j. i < 2 * 2 \<longrightarrow> j < 2 * 2 \<longrightarrow> ent A i j = ent A j i"
    by blast
  then show ?thesis by simp
qed

lemma nbr_coord:
  assumes n: "2 \<le> n" and "r < n" "c < n"
  shows "up_nbr n (r * n + c) = (if r = 0 then n - 1 else r - 1) * n + c"
    "down_nbr n (r * n + c) = (if r + 1 = n then 0 else r + 1) * n + c"
    "left_nbr n (r * n + c) = r * n + (if c = 0 then n - 1 else c - 1)"
    "right_nbr n (r * n + c) = r * n + (if c + 1 = n then 0 else c + 1)"
proof -
  have dm: "(r * n + c) div n = r" "(r * n + c) mod n = c"
    using assms by simp_all
  show "up_nbr n (r * n + c) = (if r = 0 then n - 1 else r - 1) * n + c"
    "down_nbr n (r * n + c) = (if r + 1 = n then 0 else r + 1) * n + c"
    "left_nbr n (r * n + c) = r * n + (if c = 0 then n - 1 else c - 1)"
    "right_nbr n (r * n + c) = r * n + (if c + 1 = n then 0 else c + 1)"
    unfolding up_nbr_def down_nbr_def left_nbr_def right_nbr_def dm
    using mod_succ [OF assms(2)] mod_succ [OF assms(3)] mod_pred [OF assms(2)] mod_pred [OF assms(3)]
    by simp_all
qed

lemma nbr_distinct_coord:
  assumes n: "3 \<le> n" and "r < n" "c < n"
  shows "distinct [r * n + c, up_nbr n (r * n + c), down_nbr n (r * n + c),
                   left_nbr n (r * n + c), right_nbr n (r * n + c)]"
proof -
  from n have n2: "2 \<le> n" by simp
  define ru where "ru = (if r = 0 then n - 1 else r - 1)"
  define rd where "rd = (if r + 1 = n then 0 else r + 1)"
  define cl where "cl = (if c = 0 then n - 1 else c - 1)"
  define cr where "cr = (if c + 1 = n then 0 else c + 1)"
  have lt: "ru < n" "rd < n" "cl < n" "cr < n"
    using assms unfolding ru_def rd_def cl_def cr_def by arith+
  have ne: "ru \<noteq> r" "rd \<noteq> r" "ru \<noteq> rd" "cl \<noteq> c" "cr \<noteq> c" "cl \<noteq> cr"
    using assms unfolding ru_def rd_def cl_def cr_def by arith+
  have nb: "up_nbr n (r * n + c) = ru * n + c" "down_nbr n (r * n + c) = rd * n + c"
    "left_nbr n (r * n + c) = r * n + cl" "right_nbr n (r * n + c) = r * n + cr"
    unfolding ru_def rd_def cl_def cr_def by (rule nbr_coord [OF n2 assms(2,3)])+
  show ?thesis
    unfolding nb using ne lt assms(3)
    by (simp add: flat_eq_iff eq_commute [of r] eq_commute [of c])
qed

lemma nbr_distinct:
  assumes n: "3 \<le> n" and i: "i < n * n"
  shows "distinct [i, up_nbr n i, down_nbr n i, left_nbr n i, right_nbr n i]"
proof -
  have dv: "i div n < n" using i by (simp add: less_mult_imp_div_less)
  have md: "i mod n < n" using n by simp
  from nbr_distinct_coord [OF n dv md] show ?thesis by simp
qed

lemma pick_one:
  fixes i a b c d j :: nat
  assumes "distinct [i, a, b, c, d]"
  shows "(if j = i then - 4 else 0) + (if j = a then 1 else 0) + (if j = b then 1 else 0)
       + (if j = c then 1 else 0) + (if j = d then 1 else 0)
       = (if i = j then - 4 else if j = a \<or> j = b \<or> j = c \<or> j = d then 1 else (0::real))"
  using assms by auto

lemma stencil_five_point:
  assumes n: "3 \<le> n" and i: "i < n * n"
  shows "stencil n i j / (2 / (real n + 1))\<^sup>2 = five_point_entry n i j"
  unfolding stencil_def five_point_entry_def pick_one [OF nbr_distinct [OF assms]]
  by simp

lemma length_filter_upt:
  "length (filter P [0..<k]) = card {j. j < k \<and> P j}"
proof -
  have "distinct (filter P [0..<k])"
    by simp
  then have "card (set (filter P [0..<k])) = length (filter P [0..<k])"
    by (rule distinct_card)
  moreover have "set (filter P [0..<k]) = {j. j < k \<and> P j}"
    by auto
  ultimately show ?thesis
    by simp
qed

lemma five_point_support:
  assumes n: "3 \<le> n" and i: "i < n * n"
  shows "{j. j < n * n \<and> five_point_entry n i j \<noteq> 0}
       = set [i, up_nbr n i, down_nbr n i, left_nbr n i, right_nbr n i]"
    and "{j. j < n * n \<and> j \<noteq> i \<and> five_point_entry n i j = 1 / (2 / (real n + 1))\<^sup>2}
       = set [up_nbr n i, down_nbr n i, left_nbr n i, right_nbr n i]"
proof -
  from n have n0: "0 < n" by simp
  have d: "(2 / (real n + 1))\<^sup>2 \<noteq> 0"
    by (simp add: add_nonneg_eq_0_iff)
  note lt = nbr_lt [OF n0 i]
  from nbr_distinct [OF assms] have ne: "up_nbr n i \<noteq> i" "down_nbr n i \<noteq> i"
    "left_nbr n i \<noteq> i" "right_nbr n i \<noteq> i"
    by auto
  show "{j. j < n * n \<and> five_point_entry n i j \<noteq> 0}
       = set [i, up_nbr n i, down_nbr n i, left_nbr n i, right_nbr n i]"
    using d i lt by (auto simp: five_point_entry_def split: if_splits)
  show "{j. j < n * n \<and> j \<noteq> i \<and> five_point_entry n i j = 1 / (2 / (real n + 1))\<^sup>2}
       = set [up_nbr n i, down_nbr n i, left_nbr n i, right_nbr n i]"
    using d i lt ne by (auto simp: five_point_entry_def split: if_splits)
qed

text \<open>
  C1, as amended. For every grid size \<open>m \<ge> 3\<close>, \<^verbatim>\<open>laplacian_discretization(m)\<close> returns an
  \<open>m\<^sup>2 \<times> m\<^sup>2\<close> matrix whose entry \<open>(i, j)\<close> is \<open>- 4 / \<Delta>x\<^sup>2\<close> when \<open>i = j\<close>, \<open>1 / \<Delta>x\<^sup>2\<close> when \<open>j\<close> is
  one of the four periodic neighbours of \<open>i\<close>, and \<open>0\<close> otherwise, with \<open>\<Delta>x = 2 / (m + 1)\<close>.
\<close>

theorem laplacian_five_point_entries:
  assumes "3 \<le> n"
  shows "\<exists>A. laplacian_discretization (int n) = Inr A \<and> nrows A = n * n \<and> ncols A = n * n \<and>
           (\<forall>i j. i < n * n \<longrightarrow> j < n * n \<longrightarrow> ent A i j = five_point_entry n i j)"
proof -
  from assms have n2: "2 \<le> n" by simp
  from laplacian_assembled [OF n2] obtain A where
    A: "laplacian_discretization (int n) = Inr A" "assembled n A"
    by blast
  from A(2) have "nrows A = n * n" "ncols A = n * n"
    and "\<forall>i j. i < n * n \<longrightarrow> j < n * n \<longrightarrow> ent A i j = five_point_entry n i j"
    using stencil_five_point [OF assms] by (simp_all add: assembled_def)
  with A(1) show ?thesis
    by blast
qed

theorem laplacian_five_point_entries_witness:
  "(3::nat) \<le> 3 \<and> (0::nat) < 3 * 3 \<and> (1::nat) < 3 * 3
   \<and> ent (projr (laplacian_discretization (int 3))) 0 1 = five_point_entry 3 0 1"
proof -
  have h: "(3::nat) \<le> 3" by simp
  from laplacian_five_point_entries [OF h] obtain A where
    "laplacian_discretization (int 3) = Inr A"
    "\<forall>i j. i < 3 * 3 \<longrightarrow> j < 3 * 3 \<longrightarrow> ent A i j = five_point_entry 3 i j"
    by blast
  then show ?thesis by simp
qed

text \<open>
  The claim as stated, for every \<open>m \<ge> 2\<close>, fails at \<open>m = 2\<close>: cell \<open>1\<close> is a neighbour of cell
  \<open>0\<close>, and the entry \<open>(0, 1)\<close> is not \<open>1 / \<Delta>x\<^sup>2\<close>.
\<close>

theorem laplacian_five_point_entries_counterexample:
  "right_nbr 2 0 = 1 \<and> \<not> isl (laplacian_discretization 2) \<and>
   ent (projr (laplacian_discretization 2)) 0 1 \<noteq> five_point_entry 2 0 1"
  by code_simp

text \<open>
  C5, as amended. For every grid size \<open>m \<ge> 3\<close>, each of the \<open>m\<^sup>2\<close> rows of the matrix has
  exactly five non-zero entries: the diagonal entry \<open>- 4 / \<Delta>x\<^sup>2\<close> and four off-diagonal entries
  of value \<open>1 / \<Delta>x\<^sup>2\<close>.
\<close>

theorem laplacian_five_nonzeros:
  assumes "3 \<le> n"
  shows "\<exists>A. laplacian_discretization (int n) = Inr A \<and> nrows A = n * n \<and> ncols A = n * n \<and>
           (\<forall>i. i < n * n \<longrightarrow>
              row_nnz A i = 5 \<and> ent A i i = - 4 / (2 / (real n + 1))\<^sup>2 \<and>
              length (filter (\<lambda>j. j \<noteq> i \<and> ent A i j = 1 / (2 / (real n + 1))\<^sup>2) [0..<ncols A]) = 4)"
proof -
  from assms have n2: "2 \<le> n" by simp
  from laplacian_assembled [OF n2] obtain A where
    A: "laplacian_discretization (int n) = Inr A" "assembled n A"
    by blast
  from A(2) have sh: "nrows A = n * n" "ncols A = n * n"
    and en: "\<And>i j. i < n * n \<Longrightarrow> j < n * n \<Longrightarrow> ent A i j = five_point_entry n i j"
    using stencil_five_point [OF assms] by (simp_all add: assembled_def)
  have "row_nnz A i = 5 \<and> ent A i i = - 4 / (2 / (real n + 1))\<^sup>2 \<and>
      length (filter (\<lambda>j. j \<noteq> i \<and> ent A i j = 1 / (2 / (real n + 1))\<^sup>2) [0..<ncols A]) = 4"
    if i: "i < n * n" for i
  proof -
    note dist = nbr_distinct [OF assms i]
    have "{j. j < n * n \<and> ent A i j \<noteq> 0} = {j. j < n * n \<and> five_point_entry n i j \<noteq> 0}"
      using en [OF i] by auto
    then have "row_nnz A i = card (set [i, up_nbr n i, down_nbr n i, left_nbr n i, right_nbr n i])"
      unfolding row_nnz_def length_filter_upt sh five_point_support(1) [OF assms i] by simp
    also have "\<dots> = 5"
      using dist by (simp only: distinct_card) simp
    finally have a: "row_nnz A i = 5" .
    have b: "ent A i i = - 4 / (2 / (real n + 1))\<^sup>2"
      using en [OF i i] by (simp add: five_point_entry_def)
    have "{j. j < n * n \<and> j \<noteq> i \<and> ent A i j = 1 / (2 / (real n + 1))\<^sup>2}
        = {j. j < n * n \<and> j \<noteq> i \<and> five_point_entry n i j = 1 / (2 / (real n + 1))\<^sup>2}"
      using en [OF i] by auto
    then have "length (filter (\<lambda>j. j \<noteq> i \<and> ent A i j = 1 / (2 / (real n + 1))\<^sup>2) [0..<ncols A])
        = card (set [up_nbr n i, down_nbr n i, left_nbr n i, right_nbr n i])"
      unfolding length_filter_upt sh five_point_support(2) [OF assms i] by simp
    also have "\<dots> = 4"
      using dist by (simp only: distinct_card distinct.simps) simp
    finally show ?thesis using a b by blast
  qed
  with A(1) sh show ?thesis
    by blast
qed

theorem laplacian_five_nonzeros_witness:
  "(3::nat) \<le> 3 \<and> (4::nat) < 3 * 3 \<and> row_nnz (projr (laplacian_discretization (int 3))) 4 = 5"
proof -
  have h: "(3::nat) \<le> 3" by simp
  from laplacian_five_nonzeros [OF h] obtain A where
    "laplacian_discretization (int 3) = Inr A" "\<forall>i. i < 3 * 3 \<longrightarrow> row_nnz A i = 5"
    by blast
  then show ?thesis by simp
qed

text \<open>
  The claim as stated, for every \<open>m \<ge> 2\<close>, fails at \<open>m = 2\<close>, where a row has three non-zero
  entries.
\<close>

theorem laplacian_five_nonzeros_counterexample:
  "\<not> isl (laplacian_discretization 2) \<and> row_nnz (projr (laplacian_discretization 2)) 0 \<noteq> 5"
  by code_simp

text \<open>
  C10. For the grid size \<open>m = 2\<close> the matrix has three non-zero entries in each row: the
  diagonal entry \<open>- 4 / \<Delta>x\<^sup>2\<close> and two off-diagonal entries \<open>2 / \<Delta>x\<^sup>2\<close>; it is symmetric (it
  equals its transpose) and each row sums to zero.
\<close>

theorem laplacian_2_rows:
  "\<not> isl (laplacian_discretization 2) \<and>
   (let A = projr (laplacian_discretization 2); d = (2 / (2 + 1))\<^sup>2 in
      nrows A = 4 \<and> ncols A = 4 \<and>
      map (\<lambda>i. map (ent A i) [0..<4]) [0..<4] =
        [[- 4 / d, 2 / d, 2 / d, 0],
         [2 / d, - 4 / d, 0, 2 / d],
         [2 / d, 0, - 4 / d, 2 / d],
         [0, 2 / d, 2 / d, - 4 / d]] \<and>
      map (row_nnz A) [0..<4] = [3, 3, 3, 3] \<and>
      map (row_sum A) [0..<4] = [0, 0, 0, 0] \<and>
      map (\<lambda>i. map (\<lambda>j. ent A j i) [0..<4]) [0..<4] = map (\<lambda>i. map (ent A i) [0..<4]) [0..<4])"
  by code_simp

section \<open>Claims about the reaction terms and the grid size\<close>

lemma reaction_zero:
  "f_reaction (replicate k 0) (replicate k 0) sigma tau_1 tau_2 alpha beta gamma = Inr (replicate k 0)"
  "beta \<noteq> 0 \<Longrightarrow>
     g_reaction (replicate k 0) (replicate k 0) sigma tau_1 tau_2 alpha beta gamma = Inr (replicate k 0)"
  by (simp_all add: f_reaction_def g_reaction_def py_div_def zip_replicate map_replicate_const)

text \<open>
  C8. The claim asks \<^verbatim>\<open>g_reaction(0, 0, ...)\<close> to be zero for every parameter tuple. With
  \<open>beta = 0\<close> the source divides \<^verbatim>\<open>alpha * tau_1\<close> by \<open>beta\<close> and raises
  \<^verbatim>\<open>ZeroDivisionError\<close>, whatever the arrays and the other parameters are.
\<close>

theorem g_reaction_beta_zero:
  "g_reaction U V sigma tau_1 tau_2 alpha 0 gamma = Inl ZeroDivisionError"
  by (simp add: g_reaction_def py_div_def)

text \<open>
  C9. \<^verbatim>\<open>laplacian_discretization(m)\<close> raises for every integer \<open>m < 2\<close>: \<^verbatim>\<open>numpy.ones\<close>
  rejects a negative length, \<open>m = - 1\<close> divides by zero in \<open>delta_x\<close>, and for \<open>m = 0\<close> and
  \<open>m = 1\<close> the two periodic offsets \<open>m - m\<^sup>2\<close> and \<open>m\<^sup>2 - m\<close> coincide, which
  \<^verbatim>\<open>spdiags\<close> rejects. For \<open>m = 2\<close> it returns a matrix.
\<close>

theorem laplacian_rejects_small_grid:
  "(m < 2 \<longrightarrow> laplacian_discretization m = Inl (if m = - 1 then ZeroDivisionError else ValueError))
   \<and> \<not> isl (laplacian_discretization 2)"
proof -
  have neg: "laplacian_discretization m = Inl ValueError" if "m < - 1"
    using that by (simp add: laplacian_discretization_def py_div_def ones_def)
  have m1: "laplacian_discretization (- 1) = Inl ZeroDivisionError"
    by (simp add: laplacian_discretization_def py_div_def)
  have z: "laplacian_discretization 0 = Inl ValueError"
    by (simp add: laplacian_discretization_def py_div_def ones_def spdiags_def sp_add_def kron_def eye_def)
  have o: "laplacian_discretization 1 = Inl ValueError"
    by (simp add: laplacian_discretization_def py_div_def ones_def spdiags_def sp_add_def kron_def eye_def)
  have two: "\<not> isl (laplacian_discretization 2)"
    using laplacian_assembled [of 2] by auto
  have "m < - 1 \<or> m = - 1 \<or> m = 0 \<or> m = 1" if "m < 2"
    using that by arith
  with neg m1 z o two show ?thesis
    by auto
qed

theorem laplacian_rejects_small_grid_witness:
  "(0::int) < 2 \<and> (1::int) < 2 \<and> laplacian_discretization 0 = Inl ValueError
   \<and> laplacian_discretization 1 = Inl ValueError \<and> laplacian_discretization (- 1) = Inl ZeroDivisionError"
  using laplacian_rejects_small_grid [of 0] laplacian_rejects_small_grid [of 1]
    laplacian_rejects_small_grid [of "- 1"]
  by simp

section \<open>The implicit diffusion sub-step\<close>







section \<open>The explicit stepper\<close>













section \<open>The IMEX iteration\<close>




end
